theory Spec2Isabelle
  imports Complex_Main "HOL-Library.Word" "HOL-Library.Log_Nat"
begin

section \<open>Platform types and constants\<close>

text \<open>
  The sketch targets the Arduino Uno (ATmega328P, avr-gcc): \<open>byte\<close> has 8 bits,
  \<open>unsigned int\<close> 16 bits and \<open>unsigned long\<close> 32 bits, all with wrap-around
  arithmetic. \<open>ULONG_MAX\<close> comes from \<open>limits.h\<close>, \<open>HIGH\<close> and \<open>LOW\<close>
  from \<open>Arduino.h\<close>.
\<close>

type_synonym byte = "8 word"
type_synonym uint = "16 word"
type_synonym ulong = "32 word"

definition ULONG_MAX :: ulong where
  "ULONG_MAX = 4294967295"

definition HIGH :: byte where
  "HIGH = 1"

definition LOW :: byte where
  "LOW = 0"

text \<open>The configuration constants of the sketch (lines 45 and 71).\<close>

definition measurementDelaySeconds :: uint where
  "measurementDelaySeconds = 60"

definition debounceDelayMillis :: uint where
  "debounceDelayMillis = 10"

section \<open>Program state\<close>

text \<open>
  Finite \<open>float\<close> values are represented by the rational number they denote; the
  arithmetic on them is defined further down.
\<close>

type_synonym f32 = rat

text \<open>
  What the sketch sends to the serial port, one entry per call of \<open>Serial.print\<close> or
  \<open>Serial.println\<close>; the formatting of numbers is left to the receiving library, so a
  number is recorded as the value (and, for a float, the number of decimals) passed.
\<close>

datatype serial_out =
    Print string
  | Println string
  | PrintlnUInt uint
  | PrintlnFloat f32 int

text \<open>
  The globals \<open>pulseCount\<close>, \<open>lastPulse\<close> and \<open>ledState\<close>, together with the
  pieces of the environment the sketch acts on: the global interrupt enable flag
  (\<open>interrupts()\<close> / \<open>noInterrupts()\<close>), the values written to the LED pin by
  \<open>digitalWrite(LED_BUILTIN, _)\<close> (oldest first) and the serial output (oldest first).
\<close>

record state =
  pulseCount :: uint
  lastPulse :: ulong
  ledState :: byte
  interruptsEnabled :: bool
  ledPin :: "byte list"
  serial :: "serial_out list"

text \<open>
  The globals as initialised at lines 55, 76 and 86. The Arduino core enables interrupts
  before it calls \<open>setup()\<close>.
\<close>

definition power_on :: state where
  "power_on = \<lparr>pulseCount = 0, lastPulse = 0, ledState = LOW,
     interruptsEnabled = True, ledPin = [], serial = []\<rparr>"

text \<open>
  \<open>setup()\<close> (lines 88 to 123): it attaches the handler, disables interrupts and writes
  \<open>ledState\<close> to the LED pin.
\<close>

definition arduino_setup :: "state \<Rightarrow> state" where
  "arduino_setup s =
     (let s1 = s\<lparr>interruptsEnabled := False\<rparr>
      in s1\<lparr>ledPin := ledPin s1 @ [ledState s1]\<rparr>)"

definition init :: state where
  "init = arduino_setup power_on"

section \<open>Pulse capture: the interrupt handler\<close>

text \<open>
  Lines 132 to 140 of \<open>countPulse()\<close>: the value of the local \<open>timeSinceLastPulse\<close>
  for the clock reading \<open>time\<close> and the stored \<open>lastPulse\<close> (here \<open>lastP\<close>).
\<close>

definition timeSinceLastPulse :: "ulong \<Rightarrow> ulong \<Rightarrow> ulong" where
  "timeSinceLastPulse time lastP =
     (if time \<ge> lastP then time - lastP else (ULONG_MAX - lastP) + time)"

text \<open>
  \<open>countPulse()\<close> (lines 125 to 157). The reading of \<open>millis()\<close> taken at line 129 is
  the argument \<open>time\<close>. In the comparison of line 142 the \<open>unsigned int\<close> constant is
  converted to \<open>unsigned long\<close>.
\<close>

definition countPulse :: "ulong \<Rightarrow> state \<Rightarrow> state" where
  "countPulse time s =
     (if timeSinceLastPulse time (lastPulse s) \<le> ucast debounceDelayMillis then s
      else
        let s1 = s\<lparr>lastPulse := time\<rparr>;
            s2 = s1\<lparr>pulseCount := pulseCount s1 + 1\<rparr>;
            s3 = s2\<lparr>ledState := (if ledState s2 = HIGH then LOW else HIGH)\<rparr>
        in s3\<lparr>ledPin := ledPin s3 @ [ledState s3]\<rparr>)"

text \<open>
  The clock. \<open>millis()\<close> of the Arduino core returns the number of milliseconds since
  the program started as an \<open>unsigned long\<close>: the true time \<open>t\<close> (a natural number of
  milliseconds) truncated to 32 bits.
\<close>

definition millis :: "nat \<Rightarrow> ulong" where
  "millis t = of_nat t"

text \<open>
  An edge is accepted when the handler does not take the early return of line 143, that
  is, when its run changes the state (an accepted edge always writes to the LED pin).
\<close>

definition accepts :: "ulong \<Rightarrow> state \<Rightarrow> bool" where
  "accepts time s = (countPulse time s \<noteq> s)"

text \<open>
  A run of the handler on a sequence of edges, given by the true times at which they
  arrive, and the edges of the sequence that are accepted.
\<close>

fun handle_edges :: "nat list \<Rightarrow> state \<Rightarrow> state" where
  "handle_edges [] s = s"
| "handle_edges (t # ts) s = handle_edges ts (countPulse (millis t) s)"

fun accepted_edges :: "nat list \<Rightarrow> state \<Rightarrow> nat list" where
  "accepted_edges [] s = []"
| "accepted_edges (t # ts) s =
     (if accepts (millis t) s then [t] else []) @ accepted_edges ts (countPulse (millis t) s)"

text \<open>
  Two ways for the times of a list to be spread out: every time is more than \<open>d\<close> after
  the one before it in the list, and every time is more than \<open>d\<close> after all times before
  it in the list.
\<close>

definition spaced_edges :: "nat \<Rightarrow> nat list \<Rightarrow> bool" where
  "spaced_edges d ts = successively (\<lambda>a b. a + d < b) ts"

definition edges_apart :: "nat \<Rightarrow> nat list \<Rightarrow> bool" where
  "edges_apart d ts = sorted_wrt (\<lambda>a b. a + d < b) ts"

text \<open>
  The edge at time \<open>b\<close> follows the edge at time \<open>a\<close> on the clock: it arrives more than
  \<open>d\<close> later, also when the time between them is counted modulo the period \<open>2 ^ 32\<close> of
  the clock, and not exactly \<open>d + 1\<close> later (modulo the period) with a smaller reading
  than \<open>a\<close>, that is, across a wrap-around of the clock.
\<close>

definition follows_on_clock :: "nat \<Rightarrow> nat \<Rightarrow> nat \<Rightarrow> bool" where
  "follows_on_clock d a b =
     (a + d < b \<and> d < (b - a) mod 2 ^ 32
      \<and> \<not> ((b - a) mod 2 ^ 32 = d + 1 \<and> millis b < millis a))"

definition spaced_on_clock :: "nat \<Rightarrow> nat list \<Rightarrow> bool" where
  "spaced_on_clock d ts = successively (follows_on_clock d) ts"

section \<open>Floating point\<close>

text \<open>
  On the AVR \<open>float\<close> (and \<open>double\<close>) is the IEEE 754 binary32 format: a 24-bit
  significand and exponents from \<open>-126\<close> to \<open>127\<close>. An arithmetic operation returns the
  exact result rounded to the nearest representable value, ties to the even significand.
  \<open>f32_exponent x\<close> is the largest \<open>e\<close> in that range with \<open>2 ^ e \<le> \<bar>x\<bar>\<close> (and
  \<open>-126\<close> for the subnormal numbers below). Values beyond the largest finite float,
  infinities and NaN are not represented; no operation of the sketch produces them, the
  divisors being the nonzero constants of the configuration.
\<close>

fun f32_scan :: "nat \<Rightarrow> int \<Rightarrow> rat \<Rightarrow> int" where
  "f32_scan 0 e x = e"
| "f32_scan (Suc k) e x = (if 2 powi (e + 1) \<le> x then f32_scan k (e + 1) x else e)"

definition f32_exponent :: "rat \<Rightarrow> int" where
  "f32_exponent x = f32_scan 253 (- 126) \<bar>x\<bar>"

definition round_half_even :: "rat \<Rightarrow> int" where
  "round_half_even r =
     (let f = \<lfloor>r\<rfloor>; rest = r - of_int f
      in if rest < 1 / 2 then f
         else if 1 / 2 < rest then f + 1
         else if even f then f else f + 1)"

definition f32_round :: "rat \<Rightarrow> f32" where
  "f32_round x =
     (let ulp = 2 powi (f32_exponent x - 23)
      in of_int (round_half_even (x / ulp)) * ulp)"

definition f32_of_nat :: "nat \<Rightarrow> f32" where
  "f32_of_nat n = f32_round (of_nat n)"

definition f32_mul :: "f32 \<Rightarrow> f32 \<Rightarrow> f32" where
  "f32_mul x y = f32_round (x * y)"

definition f32_div :: "f32 \<Rightarrow> f32 \<Rightarrow> f32" where
  "f32_div x y = f32_round (x / y)"

section \<open>Measurement cycle: the main loop\<close>

text \<open>
  Lines 83 and 84: \<open>((float)1000 / debounceDelayMillis) * 0.5f\<close>. The literal
  \<open>0.5f\<close> is the float \<open>1 / 2\<close>.
\<close>

definition maxImpulsesPerSecond :: f32 where
  "maxImpulsesPerSecond =
     f32_mul (f32_div (f32_of_nat 1000) (f32_of_nat (unat debounceDelayMillis))) (1 / 2)"

text \<open>
  \<open>numberOfDecimalsNeeded()\<close> (lines 204 to 214): \<open>ceil(abs(log10(smallestNumber)))\<close>,
  converted to \<open>int\<close>. \<open>abs\<close> is the macro of \<open>Arduino.h\<close>, which keeps the float.
  \<open>log10\<close> belongs to the C library, whose accuracy the sketch does not fix: it is the
  parameter \<open>log10f\<close>.
\<close>

definition numberOfDecimalsNeeded :: "(f32 \<Rightarrow> f32) \<Rightarrow> f32 \<Rightarrow> int" where
  "numberOfDecimalsNeeded log10f smallestNumber = \<lceil>\<bar>log10f smallestNumber\<bar>\<rceil>"

text \<open>
  The locals of \<open>loop()\<close>, as functions of the tally read at line 171:
  \<open>(float)pulseCount / measurementDelaySeconds\<close> (lines 170 and 171),
  \<open>(float)pulseCount*60 / measurementDelaySeconds\<close> (lines 172 and 173) and
  \<open>numberOfDecimalsNeeded((float)1 / maxImpulsesPerSecond)\<close> (lines 183 and 184).
\<close>

definition pulsesPerSecond :: "uint \<Rightarrow> f32" where
  "pulsesPerSecond n =
     f32_div (f32_of_nat (unat n)) (f32_of_nat (unat measurementDelaySeconds))"

definition pulsesPerMinute :: "uint \<Rightarrow> f32" where
  "pulsesPerMinute n =
     f32_div (f32_mul (f32_of_nat (unat n)) (f32_of_nat 60))
       (f32_of_nat (unat measurementDelaySeconds))"

definition displayedDecimals :: "(f32 \<Rightarrow> f32) \<Rightarrow> int" where
  "displayedDecimals log10f =
     numberOfDecimalsNeeded log10f (f32_div (f32_of_nat 1) maxImpulsesPerSecond)"

definition warning :: serial_out where
  "warning = Println ''ERROR: Debounce delay too high for impulse speed!''"

text \<open>
  \<open>loop()\<close> (lines 159 to 200) in three parts. \<open>loop_arm\<close> is lines 161 to 163: the
  tally is reset and interrupts are enabled. During \<open>delay\<close> (line 166) the handler
  runs once for every edge of the window, at the times \<open>ts\<close>. \<open>loop_report\<close> is lines
  168 to 199: interrupts are disabled, the rates are computed and printed.
\<close>

definition loop_arm :: "state \<Rightarrow> state" where
  "loop_arm s =
     (let s1 = s\<lparr>pulseCount := 0\<rparr>
      in s1\<lparr>interruptsEnabled := True\<rparr>)"

definition loop_report :: "(f32 \<Rightarrow> f32) \<Rightarrow> state \<Rightarrow> state" where
  "loop_report log10f s =
     (let s1 = s\<lparr>interruptsEnabled := False\<rparr>;
          pps = pulsesPerSecond (pulseCount s1);
          ppm = pulsesPerMinute (pulseCount s1);
          s2 = s1\<lparr>serial := serial s1 @
                 [Print ''Pulses measured: '', PrintlnUInt (pulseCount s1),
                  Print ''Pulses per second: '']\<rparr>;
          decimals = displayedDecimals log10f;
          s3 = s2\<lparr>serial := serial s2 @
                 [PrintlnFloat pps decimals, Print ''Pulses per minute: '',
                  PrintlnFloat ppm decimals]\<rparr>;
          s4 = (if pps \<ge> maxImpulsesPerSecond
                then s3\<lparr>serial := serial s3 @ [warning]\<rparr> else s3)
      in s4\<lparr>serial := serial s4 @
            [Println ''-----------------------------------------------'']\<rparr>)"

definition loop :: "(f32 \<Rightarrow> f32) \<Rightarrow> nat list \<Rightarrow> state \<Rightarrow> state" where
  "loop log10f ts s = loop_report log10f (handle_edges ts (loop_arm s))"

section \<open>Facts about the handler\<close>

lemma init_fields:
  "pulseCount init = 0" "lastPulse init = 0" "ledState init = LOW"
  "ledPin init = [LOW]" "serial init = []" "interruptsEnabled init = False"
  by (simp_all add: init_def arduino_setup_def power_on_def)

lemma accepts_iff:
  "accepts time s \<longleftrightarrow> \<not> timeSinceLastPulse time (lastPulse s) \<le> ucast debounceDelayMillis"
proof (cases "timeSinceLastPulse time (lastPulse s) \<le> ucast debounceDelayMillis")
  case True
  then show ?thesis by (simp add: accepts_def countPulse_def)
next
  case False
  have "length (ledPin (countPulse time s)) = Suc (length (ledPin s))"
    using False by (simp add: countPulse_def Let_def)
  then have "countPulse time s \<noteq> s" by auto
  with False show ?thesis by (simp add: accepts_def)
qed

lemma debounce_ucast: "unat (ucast debounceDelayMillis :: ulong) = 10"
  by (simp add: debounceDelayMillis_def)

lemma accepts_unat:
  "accepts time s \<longleftrightarrow> 10 < unat (timeSinceLastPulse time (lastPulse s))"
  by (simp add: accepts_iff word_le_nat_alt debounce_ucast not_le)

lemma elapsed_nowrap:
  assumes "t0 \<le> t" "t < 2 ^ 32"
  shows "unat (timeSinceLastPulse (millis t) (millis t0)) = t - t0"
  using assms
  apply (simp add: timeSinceLastPulse_def millis_def word_le_nat_alt unat_of_nat)
  apply (simp add: unat_sub word_le_nat_alt unat_of_nat)
  done

lemma elapsed_word:
  "timeSinceLastPulse (a + d) a = (if a \<le> a + d then d else d - 1)"
  by (simp add: timeSinceLastPulse_def ULONG_MAX_def)

lemma elapsed_le_true:
  assumes "t0 \<le> t" "t \<le> t0 + 10"
  shows "unat (timeSinceLastPulse (millis t) (millis t0)) \<le> 10"
proof -
  define d :: ulong where "d = of_nat (t - t0)"
  have d: "unat d = t - t0"
    unfolding d_def unat_of_nat using assms by simp
  have t: "millis t = millis t0 + d"
    using assms by (simp add: millis_def d_def)
  show ?thesis
  proof (cases "millis t0 \<le> millis t0 + d")
    case True
    then show ?thesis using d assms by (simp add: t elapsed_word)
  next
    case False
    then have "d \<noteq> 0" by auto
    then have "unat (d - 1) = unat d - 1"
      by (simp add: unat_minus_one)
    then show ?thesis using False d assms by (simp add: t elapsed_word)
  qed
qed


lemma countPulse_accept:
  assumes "accepts time s"
  shows "countPulse time s =
    s\<lparr>lastPulse := time, pulseCount := pulseCount s + 1,
      ledState := (if ledState s = HIGH then LOW else HIGH),
      ledPin := ledPin s @ [if ledState s = HIGH then LOW else HIGH]\<rparr>"
  using assms by (simp add: accepts_iff countPulse_def Let_def)

lemma countPulse_reject: "\<not> accepts time s \<Longrightarrow> countPulse time s = s"
  by (simp add: accepts_def)

lemma accepts_true_gap:
  assumes "accepts (millis t) s" "lastPulse s = millis t0" "t0 \<le> t"
  shows "t0 + 10 < t"
proof (rule ccontr)
  assume "\<not> t0 + 10 < t"
  then have "t \<le> t0 + 10" by simp
  from elapsed_le_true [OF assms(3) this] assms(1,2) show False
    by (simp add: accepts_unat)
qed

lemma accepts_nowrap:
  assumes "lastPulse s = millis t0" "t0 + 10 < t" "t < 2 ^ 32"
  shows "accepts (millis t) s"
  using assms elapsed_nowrap [of t0 t] by (simp add: accepts_unat)

lemma all_accepted_gen:
  assumes "lastPulse s = millis t0"
    and "successively (\<lambda>a b. a + 10 < b) (t0 # ts)"
    and "\<forall>t\<in>set ts. t < 2 ^ 32"
  shows "accepted_edges ts s = ts
    \<and> pulseCount (handle_edges ts s) = pulseCount s + of_nat (length ts)"
  using assms
proof (induction ts arbitrary: s t0)
  case Nil
  then show ?case by simp
next
  case (Cons t ts)
  from Cons.prems have acc: "accepts (millis t) s"
    by (intro accepts_nowrap [of s t0 t]) simp_all
  let ?s = "countPulse (millis t) s"
  have l: "lastPulse ?s = millis t" and p: "pulseCount ?s = pulseCount s + 1"
    by (simp_all add: countPulse_accept [OF acc])
  from Cons.prems have "successively (\<lambda>a b. a + 10 < b) (t # ts)" "\<forall>t\<in>set ts. t < 2 ^ 32"
    by simp_all
  from Cons.IH [OF l this] show ?case
    using acc p by simp
qed

lemma set_accepted_edges: "set (accepted_edges ts s) \<subseteq> set ts"
  by (induction ts arbitrary: s) auto

lemma accepted_chain:
  assumes "sorted ts" and "\<forall>t\<in>set ts. t0 \<le> t" and "lastPulse s = millis t0"
  shows "successively (\<lambda>a b. a + 10 < b) (t0 # accepted_edges ts s)
    \<and> lastPulse (handle_edges ts s) = millis (last (t0 # accepted_edges ts s))"
  using assms
proof (induction ts arbitrary: s t0)
  case Nil
  then show ?case by simp
next
  case (Cons t ts)
  show ?case
  proof (cases "accepts (millis t) s")
    case True
    let ?s = "countPulse (millis t) s"
    have gap: "t0 + 10 < t"
      using True Cons.prems by (intro accepts_true_gap [of t s t0]) simp_all
    have l: "lastPulse ?s = millis t"
      by (simp add: countPulse_accept [OF True])
    from Cons.prems have "sorted ts" "\<forall>u\<in>set ts. t \<le> u" by simp_all
    from Cons.IH [OF this l] show ?thesis
      using True gap by simp
  next
    case False
    from Cons.prems have "sorted ts" "\<forall>u\<in>set ts. t0 \<le> u" by simp_all
    from Cons.IH [OF this] Cons.prems(3) show ?thesis
      using False by (simp add: countPulse_reject)
  qed
qed

lemma chain_pairwise:
  "successively (\<lambda>a b. a + d < b) xs \<Longrightarrow> sorted_wrt (\<lambda>a b. a + (d::nat) < b) xs"
  by (subst (asm) successively_conv_sorted_wrt) (auto simp: transp_def)

lemma accepted_step_advances:
  assumes "accepts time s"
  shows "lastPulse (countPulse time s) = time \<and> 10 < unat (time - lastPulse s)"
proof -
  have "timeSinceLastPulse time (lastPulse s) = time - lastPulse s \<or>
        timeSinceLastPulse time (lastPulse s) = time - lastPulse s - 1 \<and> time \<noteq> lastPulse s"
    by (auto simp: timeSinceLastPulse_def ULONG_MAX_def)
  moreover have "time \<noteq> lastPulse s \<Longrightarrow> unat (time - lastPulse s - 1) = unat (time - lastPulse s) - 1"
    by (simp add: unat_minus_one)
  ultimately have "unat (timeSinceLastPulse time (lastPulse s)) \<le> unat (time - lastPulse s)"
    by auto
  with assms show ?thesis
    by (simp add: countPulse_accept accepts_unat)
qed


lemma unat_elapsed:
  "unat (timeSinceLastPulse time lastP) =
     (if lastP \<le> time then unat (time - lastP) else unat (time - lastP) - 1)"
proof (cases "lastP \<le> time")
  case True
  then show ?thesis by (simp add: timeSinceLastPulse_def)
next
  case False
  then have ne: "time - lastP \<noteq> 0" by auto
  have "timeSinceLastPulse time lastP = time - lastP - 1"
    using False by (simp add: timeSinceLastPulse_def ULONG_MAX_def)
  with ne False show ?thesis by (simp add: unat_minus_one)
qed

lemma unat_millis_diff:
  assumes "a \<le> b"
  shows "unat (millis b - millis a) = (b - a) mod 2 ^ 32"
proof -
  have "millis b - millis a = of_nat (b - a)"
    using assms by (simp add: millis_def)
  moreover have "unat (of_nat (b - a) :: ulong) = (b - a) mod 2 ^ 32"
    unfolding unat_of_nat by simp
  ultimately show ?thesis by simp
qed

lemma accepts_follows:
  assumes "lastPulse s = millis a" and "follows_on_clock 10 a b"
  shows "accepts (millis b) s"
proof -
  from assms(2) have g: "a \<le> b" "10 < (b - a) mod 2 ^ 32"
    and nw: "\<not> ((b - a) mod 2 ^ 32 = 11 \<and> millis b < millis a)"
    by (auto simp add: follows_on_clock_def)
  have e: "unat (millis b - millis a) = (b - a) mod 2 ^ 32"
    using g(1) by (rule unat_millis_diff)
  show ?thesis
  proof (cases "millis a \<le> millis b")
    case True
    with e g show ?thesis
      by (simp add: accepts_unat assms(1) unat_elapsed)
  next
    case False
    with nw have "(b - a) mod 2 ^ 32 \<noteq> 11" by (auto simp add: not_le)
    with e g False show ?thesis
      by (simp add: accepts_unat assms(1) unat_elapsed)
  qed
qed

lemma all_accepted_any_time:
  assumes "lastPulse s = millis t0" and "spaced_on_clock 10 (t0 # ts)"
  shows "accepted_edges ts s = ts
    \<and> pulseCount (handle_edges ts s) = pulseCount s + of_nat (length ts)"
  using assms
proof (induction ts arbitrary: s t0)
  case Nil
  then show ?case by simp
next
  case (Cons t ts)
  from Cons.prems have f: "follows_on_clock 10 t0 t" and rest: "spaced_on_clock 10 (t # ts)"
    by (simp_all add: spaced_on_clock_def)
  from Cons.prems(1) f have acc: "accepts (millis t) s"
    by (rule accepts_follows)
  let ?s = "countPulse (millis t) s"
  have l: "lastPulse ?s = millis t" and p: "pulseCount ?s = pulseCount s + 1"
    by (simp_all add: countPulse_accept [OF acc])
  from Cons.IH [OF l rest] show ?case
    using acc p by simp
qed

lemma gap_follows:
  assumes "a + d + 1 < b" and "b < a + 2 ^ 32"
  shows "follows_on_clock d a b"
proof -
  have "(b - a) mod 2 ^ 32 = b - a"
    using assms by simp
  with assms show ?thesis
    by (auto simp add: follows_on_clock_def)
qed

text \<open>
  The tally after a run of the handler is the tally before it plus the number of accepted
  edges, modulo \<open>2 ^ 16\<close>.
\<close>

lemma tally_counts_accepted:
  "pulseCount (handle_edges ts s) = pulseCount s + of_nat (length (accepted_edges ts s))"
proof (induction ts arbitrary: s)
  case Nil
  then show ?case by simp
next
  case (Cons t ts)
  show ?case
  proof (cases "accepts (millis t) s")
    case True
    then have "pulseCount (countPulse (millis t) s) = pulseCount s + 1"
      by (simp add: countPulse_accept)
    with Cons [of "countPulse (millis t) s"] True show ?thesis by simp
  next
    case False
    with Cons [of s] show ?thesis by (simp add: countPulse_reject)
  qed
qed

section \<open>Elapsed time across the timer wrap-around\<close>

text \<open>
  C2. The elapsed time of the handler is meant to agree with the subtraction without
  wrap-around. It does not when the clock has wrapped: with \<open>lastPulse = 4294967290\<close>
  and a reading of 5, taken 11 ms later, the handler computes 10 ms. The clock has
  advanced by 11 ms (five ticks up to \<open>ULONG_MAX\<close>, one to 0, five to 5), which is what
  the subtraction modulo \<open>2 ^ 32\<close> gives: the value of the wrapped branch is one too
  small. As a result the second of two edges 11 ms apart is discarded.
\<close>

theorem timeSinceLastPulse_wrap_off_by_one:
  "millis 4294967290 = 4294967290 \<and> millis (4294967290 + 11) = 5
   \<and> timeSinceLastPulse 5 4294967290 = 10
   \<and> (5 - 4294967290 :: ulong) = 11
   \<and> accepted_edges [4294967290, 4294967290 + 11] init = [4294967290]"
  by (simp add: accepts_unat init_def arduino_setup_def power_on_def countPulse_def
      timeSinceLastPulse_def ULONG_MAX_def debounceDelayMillis_def millis_def)

section \<open>The handler on one edge\<close>

text \<open>
  C1. The time elapsed since the last accepted pulse is the difference of the current
  reading and \<open>lastPulse\<close> modulo \<open>2 ^ 32\<close>. When it is at most the debounce interval,
  the handler returns the state unchanged. When it is larger, \<open>lastPulse\<close> becomes the
  current reading, \<open>pulseCount\<close> grows by one (modulo \<open>2 ^ 16\<close>, the width of the
  counter), \<open>ledState\<close> is flipped and the new value is written to the LED pin, and
  nothing else changes, with one exception: when the clock has wrapped since the last
  accepted pulse and the elapsed time is exactly one more than the debounce interval,
  the edge is discarded, because the handler's own value is one too small there.
\<close>

theorem countPulse_by_elapsed:
  "(unat (time - lastPulse s) \<le> unat debounceDelayMillis \<longrightarrow> countPulse time s = s)
   \<and> (unat debounceDelayMillis < unat (time - lastPulse s)
        \<and> (lastPulse s \<le> time \<or> unat debounceDelayMillis + 1 < unat (time - lastPulse s))
      \<longrightarrow> lastPulse (countPulse time s) = time
        \<and> pulseCount (countPulse time s) = pulseCount s + 1
        \<and> unat (pulseCount (countPulse time s)) = (unat (pulseCount s) + 1) mod 2 ^ 16
        \<and> ledState (countPulse time s) = (if ledState s = HIGH then LOW else HIGH)
        \<and> ledState (countPulse time s) \<noteq> ledState s
        \<and> ledPin (countPulse time s) = ledPin s @ [ledState (countPulse time s)]
        \<and> interruptsEnabled (countPulse time s) = interruptsEnabled s
        \<and> serial (countPulse time s) = serial s)
   \<and> (time < lastPulse s \<and> unat (time - lastPulse s) = unat debounceDelayMillis + 1
      \<longrightarrow> countPulse time s = s)"
proof (intro conjI impI)
  assume "unat (time - lastPulse s) \<le> unat debounceDelayMillis"
  then have "\<not> accepts time s"
    by (auto simp add: accepts_unat unat_elapsed debounceDelayMillis_def)
  then show "countPulse time s = s"
    by (rule countPulse_reject)
next
  assume "time < lastPulse s \<and> unat (time - lastPulse s) = unat debounceDelayMillis + 1"
  then have "\<not> accepts time s"
    by (simp add: accepts_unat unat_elapsed debounceDelayMillis_def not_le)
  then show "countPulse time s = s"
    by (rule countPulse_reject)
next
  assume "unat debounceDelayMillis < unat (time - lastPulse s)
    \<and> (lastPulse s \<le> time \<or> unat debounceDelayMillis + 1 < unat (time - lastPulse s))"
  then have acc: "accepts time s"
    by (auto simp add: accepts_unat unat_elapsed debounceDelayMillis_def)
  note eq = countPulse_accept [OF acc]
  show "lastPulse (countPulse time s) = time"
    by (simp add: eq)
  show "pulseCount (countPulse time s) = pulseCount s + 1"
    by (simp add: eq)
  then show "unat (pulseCount (countPulse time s)) = (unat (pulseCount s) + 1) mod 2 ^ 16"
    by (simp add: unat_word_ariths)
  show "ledState (countPulse time s) = (if ledState s = HIGH then LOW else HIGH)"
    by (simp add: eq)
  then show "ledState (countPulse time s) \<noteq> ledState s"
    by (simp add: HIGH_def LOW_def)
  show "ledPin (countPulse time s) = ledPin s @ [ledState (countPulse time s)]"
    by (simp add: eq)
  show "interruptsEnabled (countPulse time s) = interruptsEnabled s"
    by (simp add: eq)
  show "serial (countPulse time s) = serial s"
    by (simp add: eq)
qed

theorem countPulse_by_elapsed_witness:
  "countPulse 5 init = init
   \<and> lastPulse (countPulse 20 init) = 20
   \<and> pulseCount (countPulse 20 init) = 1
   \<and> ledState (countPulse 20 init) = HIGH
   \<and> ledPin (countPulse 20 init) = [LOW, HIGH]
   \<and> lastPulse (handle_edges [4294967290] init) = 4294967290
   \<and> unat (5 - lastPulse (handle_edges [4294967290] init)) = 11
   \<and> countPulse 5 (handle_edges [4294967290] init) = handle_edges [4294967290] init
   \<and> lastPulse (countPulse 6 (handle_edges [4294967290] init)) = 6
   \<and> pulseCount (countPulse 6 (handle_edges [4294967290] init)) = 2"
proof -
  let ?w = "handle_edges [4294967290] init"
  have w: "lastPulse ?w = 4294967290" "pulseCount ?w = 1"
    by (simp_all add: init_def arduino_setup_def power_on_def countPulse_def
        timeSinceLastPulse_def debounceDelayMillis_def millis_def)
  from countPulse_by_elapsed [of 5 init] countPulse_by_elapsed [of 20 init]
    countPulse_by_elapsed [of 5 ?w] countPulse_by_elapsed [of 6 ?w] w
  show ?thesis
    by (simp add: init_fields debounceDelayMillis_def HIGH_def LOW_def)
qed

text \<open>
  C9. The handler state at startup has \<open>lastPulse = 0\<close>, so the first edge is discarded
  exactly when the clock reads at most \<open>debounceDelayMillis\<close> (10 ms), although no pulse
  was accepted before.
\<close>

theorem first_edge_discarded:
  "lastPulse init = 0 \<and> pulseCount init = 0
   \<and> (unat time \<le> unat debounceDelayMillis \<longrightarrow>
        countPulse time init = init \<and> pulseCount (countPulse time init) = 0)
   \<and> (countPulse time init = init) = (unat time \<le> unat debounceDelayMillis)"
proof -
  have l: "lastPulse init = 0" and p: "pulseCount init = 0"
    by (simp_all add: init_def arduino_setup_def power_on_def)
  have e: "timeSinceLastPulse time 0 = time"
    by (simp add: timeSinceLastPulse_def)
  have "(countPulse time init = init) = (unat time \<le> unat debounceDelayMillis)"
    using accepts_unat [of time init]
    by (auto simp add: accepts_def l e debounceDelayMillis_def)
  with l p show ?thesis by auto
qed

theorem first_edge_discarded_witness:
  "unat (10 :: ulong) \<le> unat debounceDelayMillis \<and> countPulse 10 init = init
   \<and> pulseCount (countPulse 10 init) = 0 \<and> countPulse 11 init \<noteq> init"
  using first_edge_discarded [of 10] first_edge_discarded [of 11]
  by (simp add: debounceDelayMillis_def)

section \<open>The handler on a sequence of edges\<close>

text \<open>
  C3, as stated, fails at startup: the edges at 5 ms and 20 ms are more than the debounce
  interval apart, and the first of them is not accepted. It also fails when the clock
  shows less than the time that has passed: the edge one full period of the clock after
  another has the same reading and is not accepted.
\<close>

theorem spaced_edges_counterexample:
  "spaced_edges (unat debounceDelayMillis) [5, 20]
   \<and> accepted_edges [5, 20] init = [20]
   \<and> accepted_edges [5, 20] init \<noteq> [5, 20]
   \<and> pulseCount (handle_edges [5, 20] init) = 1
   \<and> spaced_edges (unat debounceDelayMillis) [100, 100 + 2 ^ 32]
   \<and> accepted_edges [100, 100 + 2 ^ 32] init = [100]"
  by (simp add: spaced_edges_def accepts_unat init_def arduino_setup_def power_on_def
      countPulse_def timeSinceLastPulse_def debounceDelayMillis_def millis_def)

text \<open>
  C3, amended. Take a sequence of edges in which every edge follows the one before it on
  the clock, the first one following power-on: it arrives strictly more than the debounce
  interval later, also modulo the period of the clock, and not exactly one millisecond
  more than the debounce interval later across a wrap-around of the clock. Starting from
  the initial handler state, every edge of the sequence is accepted and counted in the
  tally (a 16-bit counter), at any uptime.
\<close>

theorem spaced_edges_all_accepted:
  assumes "spaced_on_clock (unat debounceDelayMillis) (0 # ts)"
  shows "accepted_edges ts init = ts
    \<and> pulseCount (handle_edges ts init) = of_nat (length ts)"
proof -
  have "lastPulse init = millis 0" "pulseCount init = 0"
    by (simp_all add: init_def arduino_setup_def power_on_def millis_def)
  moreover have "spaced_on_clock 10 (0 # ts)"
    using assms by (simp add: debounceDelayMillis_def)
  ultimately show ?thesis
    using all_accepted_any_time [of init 0 ts] by simp
qed

theorem spaced_edges_all_accepted_witness:
  "spaced_on_clock (unat debounceDelayMillis)
     [0, 11, 4294967290, 4294967302, 4294967313, 8589935109]
   \<and> millis 4294967302 < millis 4294967290
   \<and> accepted_edges [11, 4294967290, 4294967302, 4294967313, 8589935109] init =
       [11, 4294967290, 4294967302, 4294967313, 8589935109]
   \<and> pulseCount (handle_edges [11, 4294967290, 4294967302, 4294967313, 8589935109] init) = 5"
  using spaced_edges_all_accepted [of "[11, 4294967290, 4294967302, 4294967313, 8589935109]"]
  by (simp add: spaced_on_clock_def follows_on_clock_def debounceDelayMillis_def millis_def)

text \<open>
  C4. Let the edges arrive in the order of their times, none before the time \<open>t0\<close> whose
  clock reading is stored in \<open>lastPulse\<close> (the last accepted pulse, or power-on). Then
  any two accepted pulses, and \<open>t0\<close> and any accepted pulse, are more than the debounce
  interval apart; if all edges of the sequence lie within the debounce interval of each
  other, at most one of them is accepted; \<open>lastPulse\<close> ends as the reading of the last
  accepted pulse; and every accepted edge moves \<open>lastPulse\<close> forward to the current
  reading, by more than the debounce interval on the 32-bit clock.
\<close>

theorem debounce_invariant:
  assumes "sorted ts" and "\<forall>t\<in>set ts. t0 \<le> t" and "lastPulse s = millis t0"
  shows "edges_apart (unat debounceDelayMillis) (t0 # accepted_edges ts s)
    \<and> ((\<forall>t\<in>set ts. \<forall>u\<in>set ts. u \<le> t + unat debounceDelayMillis)
         \<longrightarrow> length (accepted_edges ts s) \<le> 1)
    \<and> lastPulse (handle_edges ts s) = millis (last (t0 # accepted_edges ts s))
    \<and> (\<forall>time. accepts time s \<longrightarrow>
          lastPulse (countPulse time s) = time
          \<and> unat debounceDelayMillis < unat (time - lastPulse s))"
proof -
  let ?A = "accepted_edges ts s"
  have d: "unat debounceDelayMillis = 10"
    by (simp add: debounceDelayMillis_def)
  from accepted_chain [OF assms]
  have chain: "successively (\<lambda>a b. a + 10 < b) (t0 # ?A)"
    and final: "lastPulse (handle_edges ts s) = millis (last (t0 # ?A))"
    by simp_all
  from chain have pw: "sorted_wrt (\<lambda>a b. a + 10 < b) (t0 # ?A)"
    by (rule chain_pairwise)
  have one: "length ?A \<le> 1" if close: "\<forall>t\<in>set ts. \<forall>u\<in>set ts. u \<le> t + 10"
  proof (rule ccontr)
    assume "\<not> length ?A \<le> 1"
    then obtain a b bs where A: "?A = a # b # bs"
      by (cases ?A; cases "tl ?A") auto
    with pw have "a + 10 < b" by simp
    moreover have "a \<in> set ts" "b \<in> set ts"
      using set_accepted_edges [of ts s] A by auto
    ultimately show False using close by fastforce
  qed
  have step: "\<forall>time. accepts time s \<longrightarrow>
      lastPulse (countPulse time s) = time \<and> 10 < unat (time - lastPulse s)"
    using accepted_step_advances by blast
  from pw one final step show ?thesis
    unfolding d edges_apart_def by blast
qed

theorem debounce_invariant_witness:
  "sorted [5, 20, 25, 31 :: nat] \<and> lastPulse init = millis 0
   \<and> accepted_edges [5, 20, 25, 31] init = [20, 31]
   \<and> edges_apart (unat debounceDelayMillis) [0, 20, 31]
   \<and> lastPulse (handle_edges [5, 20, 25, 31] init) = millis 31
   \<and> accepted_edges [100, 104, 110] (handle_edges [5, 20] init) = [100]
   \<and> accepted_edges [4294967290, 4294967300, 4294967310] init = [4294967290, 4294967310]"
  using debounce_invariant [of "[5, 20, 25, 31]" 0 init]
    debounce_invariant [of "[100, 104, 110]" 20 "handle_edges [5, 20] init"]
    debounce_invariant [of "[4294967290, 4294967300, 4294967310]" 0 init]
  by (simp add: edges_apart_def accepts_unat init_def arduino_setup_def power_on_def
      countPulse_def timeSinceLastPulse_def ULONG_MAX_def debounceDelayMillis_def millis_def
      HIGH_def LOW_def)

section \<open>Facts about the main loop\<close>

lemma loop_arm_fields:
  "pulseCount (loop_arm s) = 0" "lastPulse (loop_arm s) = lastPulse s"
  "ledState (loop_arm s) = ledState s" "ledPin (loop_arm s) = ledPin s"
  "serial (loop_arm s) = serial s" "interruptsEnabled (loop_arm s) = True"
  by (simp_all add: loop_arm_def)

lemma loop_report_fields:
  "pulseCount (loop_report log10f s) = pulseCount s"
  "lastPulse (loop_report log10f s) = lastPulse s"
  "ledState (loop_report log10f s) = ledState s"
  "ledPin (loop_report log10f s) = ledPin s"
  "interruptsEnabled (loop_report log10f s) = False"
  by (simp_all add: loop_report_def Let_def)

text \<open>
  C10. The reset at the start of a window changes \<open>pulseCount\<close> (and enables
  interrupts) and nothing else, and the report at the end of a window leaves
  \<open>lastPulse\<close> and \<open>ledState\<close> alone. So when \<open>a\<close> is the last pulse accepted in one
  window, an edge of the next window that arrives within the debounce interval of \<open>a\<close>
  is discarded: the new window's tally stays 0.
\<close>

theorem debounce_carries_over:
  assumes "sorted ts" and "\<forall>t\<in>set ts. t0 \<le> t" and "lastPulse s = millis t0"
    and "accepted_edges ts (loop_arm s) \<noteq> []"
    and "a = last (accepted_edges ts (loop_arm s))"
    and "a \<le> b" and "b \<le> a + unat debounceDelayMillis"
  shows "loop_arm s = s\<lparr>pulseCount := 0, interruptsEnabled := True\<rparr>
    \<and> lastPulse (loop_report log10f s) = lastPulse s
    \<and> ledState (loop_report log10f s) = ledState s
    \<and> lastPulse (loop_arm (loop log10f ts s)) = millis a
    \<and> ledState (loop_arm (loop log10f ts s)) = ledState (handle_edges ts (loop_arm s))
    \<and> \<not> accepts (millis b) (loop_arm (loop log10f ts s))
    \<and> pulseCount (loop log10f [b] (loop log10f ts s)) = 0
    \<and> lastPulse (loop log10f [b] (loop log10f ts s)) = millis a"
proof -
  let ?w = "handle_edges ts (loop_arm s)"
  let ?n = "loop_arm (loop log10f ts s)"
  have "lastPulse (loop_arm s) = millis t0"
    using assms(3) by (simp add: loop_arm_fields)
  from accepted_chain [OF assms(1,2) this] assms(4,5)
  have w: "lastPulse ?w = millis a" by simp
  then have n: "lastPulse ?n = millis a"
    by (simp add: loop_def loop_arm_fields loop_report_fields)
  have "unat (timeSinceLastPulse (millis b) (millis a)) \<le> 10"
    using assms(6,7) by (intro elapsed_le_true) (simp_all add: debounceDelayMillis_def)
  then have rej: "\<not> accepts (millis b) ?n"
    by (simp add: accepts_unat n)
  then have "handle_edges [b] ?n = ?n"
    by (simp add: countPulse_reject)
  then have "pulseCount (loop log10f [b] (loop log10f ts s)) = 0"
    and "lastPulse (loop log10f [b] (loop log10f ts s)) = millis a"
    using n by (simp_all add: loop_def [of log10f "[b]"] loop_report_fields loop_arm_fields)
  moreover have "ledState ?n = ledState ?w"
    by (simp add: loop_def loop_arm_fields loop_report_fields)
  moreover have "loop_arm s = s\<lparr>pulseCount := 0, interruptsEnabled := True\<rparr>"
    by (simp add: loop_arm_def)
  ultimately show ?thesis
    using n rej by (simp add: loop_report_fields)
qed

theorem debounce_carries_over_witness:
  "accepted_edges [59990] (loop_arm init) = [59990]
   \<and> pulseCount (loop (\<lambda>x. 0) [59990] init) = 1
   \<and> pulseCount (loop (\<lambda>x. 0) [60000] (loop (\<lambda>x. 0) [59990] init)) = 0
   \<and> lastPulse (loop (\<lambda>x. 0) [60000] (loop (\<lambda>x. 0) [59990] init)) = millis 59990
   \<and> pulseCount (loop (\<lambda>x. 0) [60000] (loop (\<lambda>x. 0) [] init)) = 1"
proof -
  have acc: "accepts (millis 59990) (loop_arm init)"
    by (simp add: accepts_unat loop_arm_fields init_fields timeSinceLastPulse_def millis_def)
  then have A: "accepted_edges [59990] (loop_arm init) = [59990]"
    by simp
  have p: "pulseCount (loop (\<lambda>x. 0) [59990] init) = 1"
    using acc by (simp add: loop_def loop_report_fields countPulse_accept loop_arm_fields)
  have "accepts (millis 60000) (loop_arm (loop (\<lambda>x. 0) [] init))"
    by (simp add: accepts_unat loop_def loop_arm_fields loop_report_fields init_fields
        timeSinceLastPulse_def millis_def)
  then have q: "pulseCount (loop (\<lambda>x. 0) [60000] (loop (\<lambda>x. 0) [] init)) = 1"
    by (simp add: loop_def [of _ "[60000]"] loop_report_fields countPulse_accept loop_arm_fields)
  from debounce_carries_over [of "[59990]" 0 init 59990 60000 "\<lambda>x. 0"] A p q
  show ?thesis
    by (simp add: init_fields millis_def debounceDelayMillis_def)
qed

section \<open>Facts about the float operations\<close>

lemma f32_scan_lower: "2 powi e0 \<le> x \<Longrightarrow> 2 powi (f32_scan k e0 x) \<le> x"
  by (induction k arbitrary: e0) auto

lemma f32_scan_upper:
  "x < 2 powi (e0 + int k + 1) \<Longrightarrow> x < 2 powi (f32_scan k e0 x + 1)"
proof (induction k arbitrary: e0)
  case 0
  then show ?case by simp
next
  case (Suc k)
  have "e0 + 1 + int k + 1 = e0 + int (Suc k) + 1" by simp
  with Suc show ?case by (auto simp: not_le)
qed

lemma f32_exponent_bounds:
  assumes "2 powi (- 126) \<le> \<bar>x\<bar>" and "\<bar>x\<bar> < 2 powi 128"
  shows "2 powi (f32_exponent x) \<le> \<bar>x\<bar>" and "\<bar>x\<bar> < 2 powi (f32_exponent x + 1)"
proof -
  show "2 powi (f32_exponent x) \<le> \<bar>x\<bar>"
    unfolding f32_exponent_def using assms(1) by (rule f32_scan_lower)
  have "- 126 + int 253 + 1 = 128" by simp
  with assms(2) have "\<bar>x\<bar> < 2 powi (- 126 + int 253 + 1)" by (simp only:)
  then show "\<bar>x\<bar> < 2 powi (f32_exponent x + 1)"
    unfolding f32_exponent_def by (rule f32_scan_upper)
qed

lemma round_half_even_of_int: "round_half_even (of_int m) = m"
  by (simp add: round_half_even_def)

lemma round_half_even_error: "\<bar>of_int (round_half_even r) - r\<bar> \<le> 1 / 2"
proof -
  have "of_int \<lfloor>r\<rfloor> \<le> r" "r < of_int \<lfloor>r\<rfloor> + 1"
    by linarith+
  then show ?thesis
    by (auto simp: round_half_even_def Let_def abs_le_iff)
qed

lemma f32_round_error:
  assumes "2 powi (- 126) \<le> \<bar>x\<bar>" and "\<bar>x\<bar> < 2 powi 128"
  shows "\<bar>f32_round x - x\<bar> \<le> \<bar>x\<bar> / 2 ^ 24"
proof -
  define ulp :: rat where "ulp = 2 powi (f32_exponent x - 23)"
  have pos: "0 < ulp" by (simp add: ulp_def)
  have r: "f32_round x = of_int (round_half_even (x / ulp)) * ulp"
    by (simp add: f32_round_def ulp_def Let_def)
  have "f32_round x - x = (of_int (round_half_even (x / ulp)) - x / ulp) * ulp"
    using pos by (simp add: r field_simps)
  then have "\<bar>f32_round x - x\<bar> = \<bar>of_int (round_half_even (x / ulp)) - x / ulp\<bar> * ulp"
    using pos by (simp only: abs_mult abs_of_pos)
  also have "\<dots> \<le> 1 / 2 * ulp"
    using pos round_half_even_error [of "x / ulp"] by (intro mult_right_mono) simp_all
  also have "1 / 2 * ulp = 2 powi (f32_exponent x) / 2 ^ 24"
    by (simp add: ulp_def power_int_diff)
  also have "\<dots> \<le> \<bar>x\<bar> / 2 ^ 24"
    using f32_exponent_bounds(1) [OF assms] by (simp add: divide_right_mono)
  finally show ?thesis .
qed

lemma f32_round_int:
  assumes "0 < m" and "m < 2 ^ 24"
  shows "f32_round (of_int m) = of_int m"
proof -
  let ?x = "of_int m :: rat"
  define e where "e = f32_exponent ?x"
  have "?x < of_int (2 ^ 24)"
    using assms(2) by (simp only: of_int_less_iff)
  then have x: "\<bar>?x\<bar> = ?x" "1 \<le> ?x" "?x < 2 ^ 24"
    using assms(1) by simp_all
  have lo: "(2::rat) powi (- 126) \<le> 1"
    using power_int_increasing [of "- 126" 0 "2::rat"] by simp
  have hi: "(2::rat) ^ 24 < 2 powi 128"
    using power_int_strict_increasing [of 24 128 "2::rat"] by (simp only: power_int_numeral)
  have "2 powi e \<le> \<bar>?x\<bar>"
    unfolding e_def using lo hi x by (intro f32_exponent_bounds(1)) simp_all
  then have "(2::rat) powi e < 2 powi 24"
    using x by simp
  then have "e < 24"
    by (rule power_int_le_imp_less_exp [rotated]) simp_all
  then have ulp: "(2::rat) powi (e - 23) = 1 / 2 ^ nat (23 - e)"
    by (simp add: power_int_def field_simps)
  have "?x / (1 / 2 ^ nat (23 - e)) = of_int (m * 2 ^ nat (23 - e))"
    by simp
  then show ?thesis
    unfolding f32_round_def Let_def e_def [symmetric] ulp
    by (simp only: round_half_even_of_int) simp
qed

lemma f32_round_0: "f32_round 0 = 0"
  by (simp add: f32_round_def round_half_even_def)

lemma f32_of_nat_exact:
  assumes "n < 2 ^ 24"
  shows "f32_of_nat n = of_nat n"
proof (cases "n = 0")
  case True
  then show ?thesis by (simp add: f32_of_nat_def f32_round_0)
next
  case False
  have "int n < int (2 ^ 24)"
    using assms by (simp only: of_nat_less_iff)
  then have "int n < 2 ^ 24" by simp
  with False f32_round_int [of "int n"] show ?thesis
    by (simp add: f32_of_nat_def)
qed

section \<open>Facts about the rates\<close>

lemma window_seconds: "unat measurementDelaySeconds = 60"
  by (simp add: measurementDelaySeconds_def)

lemma tally_bound: "unat (n :: uint) < 2 ^ 16"
  using unsigned_less [of n, where ?'a = nat] by simp

lemma rate_per_second:
  assumes "k < 2 ^ 16"
  shows "f32_div (f32_of_nat k) (f32_of_nat 60) = f32_round (of_nat k / 60)"
proof -
  have "k < 2 ^ 24" using assms by simp
  then show ?thesis
    by (simp add: f32_div_def f32_of_nat_exact)
qed

lemma rate_per_minute:
  assumes "k < 2 ^ 16"
  shows "f32_div (f32_mul (f32_of_nat k) (f32_of_nat 60)) (f32_of_nat 60) = of_nat k"
proof -
  have k: "k < 2 ^ 24" and k60: "k * 60 < 2 ^ 24"
    using assms by simp_all
  have "f32_mul (f32_of_nat k) (f32_of_nat 60) = f32_of_nat (k * 60)"
    using k by (simp add: f32_mul_def f32_of_nat_exact) (simp add: f32_of_nat_def)
  also have "\<dots> = of_nat (k * 60)"
    using k60 by (rule f32_of_nat_exact)
  finally have "f32_div (f32_mul (f32_of_nat k) (f32_of_nat 60)) (f32_of_nat 60) = f32_of_nat k"
    by (simp add: f32_div_def f32_of_nat_exact) (simp add: f32_of_nat_def)
  then show ?thesis
    using k by (simp add: f32_of_nat_exact)
qed

lemma rate_error:
  assumes "k < 2 ^ 16"
  shows "\<bar>f32_round (of_nat k / 60) - of_nat k / 60\<bar> \<le> of_nat k / 60 / 2 ^ 24"
proof (cases "k = 0")
  case True
  then show ?thesis by (simp add: f32_round_0)
next
  case False
  let ?x = "of_nat k / 60 :: rat"
  have "(of_nat 1 :: rat) \<le> of_nat k"
    using False by (simp only: of_nat_le_iff)
  then have lo: "1 / 60 \<le> ?x" by (simp add: divide_right_mono)
  have "k < 2 ^ 24" using assms by simp
  then have "(of_nat k :: rat) < of_nat (2 ^ 24)"
    by (simp only: of_nat_less_iff)
  then have hi: "?x < 2 ^ 24" by simp
  have "(2::rat) powi (- 126) \<le> 2 powi (- 6)"
    by (rule power_int_increasing) simp_all
  also have "(2::rat) powi (- 6) \<le> 1 / 60"
    by (simp add: power_int_minus)
  finally have a: "2 powi (- 126) \<le> \<bar>?x\<bar>"
    using lo by simp
  have "(2::rat) ^ 24 < 2 powi 128"
    using power_int_strict_increasing [of 24 128 "2::rat"] by (simp only: power_int_numeral)
  with hi have b: "\<bar>?x\<bar> < 2 powi 128"
    using lo by simp
  from f32_round_error [OF a b] lo show ?thesis
    by simp
qed

lemma over_range_nat:
  assumes "k < 2 ^ 16"
  shows "(50 \<le> f32_round (of_nat k / 60)) = (3000 \<le> k)"
proof -
  define x :: rat where "x = of_nat k / 60"
  define r where "r = f32_round x"
  have err: "\<bar>r - x\<bar> \<le> x / 16777216"
    using rate_error [OF assms] by (simp add: r_def x_def)
  consider "k \<le> 2999" | "k = 3000" | "3001 \<le> k" by linarith
  then have "(50 \<le> r) = (3000 \<le> k)"
  proof cases
    case 1
    then have "(of_nat k :: rat) \<le> of_nat 2999"
      by (simp only: of_nat_le_iff)
    then have "x \<le> 2999 / 60" by (simp add: x_def)
    with err have "r < 50" by linarith
    with 1 show ?thesis by simp
  next
    case 2
    then have "r = f32_of_nat 50"
      by (simp add: r_def x_def f32_of_nat_def)
    with 2 show ?thesis by (simp add: f32_of_nat_exact)
  next
    case 3
    then have "(of_nat 3001 :: rat) \<le> of_nat k"
      by (simp only: of_nat_le_iff)
    then have "3001 / 60 \<le> x" by (simp add: x_def)
    with err have "50 \<le> r" by linarith
    with 3 show ?thesis by simp
  qed
  then show ?thesis by (simp add: r_def x_def)
qed

lemma pulsesPerSecond_round: "pulsesPerSecond n = f32_round (of_nat (unat n) / 60)"
  unfolding pulsesPerSecond_def window_seconds
  using tally_bound by (rule rate_per_second)

lemma pulsesPerMinute_exact: "pulsesPerMinute n = of_nat (unat n)"
  unfolding pulsesPerMinute_def window_seconds
  using tally_bound by (rule rate_per_minute)

lemma maxImpulsesPerSecond_value: "maxImpulsesPerSecond = 50"
proof -
  have "f32_div 1000 10 = f32_of_nat 100"
    by (simp add: f32_div_def f32_of_nat_def)
  moreover have "f32_mul 100 (1 / 2) = f32_of_nat 50"
    by (simp add: f32_mul_def f32_of_nat_def)
  ultimately show ?thesis
    by (simp add: maxImpulsesPerSecond_def debounceDelayMillis_def f32_of_nat_exact)
qed

lemma pulsesPerSecond_error:
  "\<bar>pulsesPerSecond n - of_nat (unat n) / 60\<bar> \<le> of_nat (unat n) / 60 / 2 ^ 24"
  unfolding pulsesPerSecond_round using tally_bound by (rule rate_error)

lemma pulsesPerSecond_over_range: "(50 \<le> pulsesPerSecond n) = (3000 \<le> unat n)"
  unfolding pulsesPerSecond_round using tally_bound by (rule over_range_nat)

lemma handle_edges_serial: "serial (handle_edges ts s) = serial s"
proof (induction ts arbitrary: s)
  case Nil
  then show ?case by simp
next
  case (Cons t ts)
  have "serial (countPulse (millis t) s) = serial s"
    by (simp add: countPulse_def Let_def)
  with Cons show ?case by simp
qed

lemma loop_serial:
  "serial (loop log10f ts s) = serial s @
     [Print ''Pulses measured: '', PrintlnUInt (pulseCount (handle_edges ts (loop_arm s))),
      Print ''Pulses per second: '',
      PrintlnFloat (pulsesPerSecond (pulseCount (handle_edges ts (loop_arm s))))
        (displayedDecimals log10f),
      Print ''Pulses per minute: '',
      PrintlnFloat (pulsesPerMinute (pulseCount (handle_edges ts (loop_arm s))))
        (displayedDecimals log10f)] @
     (if maxImpulsesPerSecond \<le> pulsesPerSecond (pulseCount (handle_edges ts (loop_arm s)))
      then [warning] else []) @
     [Println ''-----------------------------------------------'']"
  by (simp add: loop_def loop_report_def Let_def handle_edges_serial loop_arm_fields)


lemma progression_spaced:
  assumes "10 < c"
  shows "successively (\<lambda>a b. a + 10 < b) (map (\<lambda>k. c * k) [0..<j])"
proof (induction j)
  case 0
  then show ?case by simp
next
  case (Suc j)
  show ?case
  proof (cases "j = 0")
    case True
    then show ?thesis by simp
  next
    case False
    then have "last (map (\<lambda>k. c * k) [0..<j]) = c * (j - 1)"
      by (simp add: last_map)
    moreover have "c * (j - 1) + 10 < c * j"
      using False assms by (cases j) simp_all
    ultimately show ?thesis
      using Suc False by (simp add: successively_append_iff)
  qed
qed

lemma progression_tally:
  assumes "10 < c" and "c * j < 2 ^ 32" and "lastPulse s = 0"
  shows "pulseCount (handle_edges (map (\<lambda>k. c * k) [1..<Suc j]) s) = pulseCount s + of_nat j"
proof -
  let ?ts = "map (\<lambda>k. c * k) [1..<Suc j]"
  have "0 # ?ts = map (\<lambda>k. c * k) [0..<Suc j]"
    by (simp add: upt_conv_Cons del: upt_Suc)
  then have sp: "successively (\<lambda>a b. a + 10 < b) (0 # ?ts)"
    using progression_spaced [OF assms(1), of "Suc j"] by (simp only:)
  have "c * k < 2 ^ 32" if "k \<le> j" for k
  proof -
    have "c * k \<le> c * j" using that by (rule mult_le_mono2)
    then show ?thesis using assms(2) by (rule le_less_trans)
  qed
  then have all: "\<forall>t\<in>set ?ts. t < 2 ^ 32" by auto
  have l: "lastPulse s = millis 0"
    using assms(3) by (simp add: millis_def)
  have "length ?ts = j" by (simp del: upt_Suc)
  with all_accepted_gen [OF l sp all] show ?thesis
    by (simp only:)
qed

section \<open>The report of a window\<close>

text \<open>
  C5. Let \<open>n\<close> be the tally at the end of the window. The cycle prints \<open>n\<close>, then
  \<open>pulsesPerSecond\<close>, the float quotient of \<open>n\<close> by the window length in seconds, then
  \<open>pulsesPerMinute\<close>, the float quotient of \<open>n\<close> times 60 by the window length. The
  first differs from the exact quotient by at most its \<open>2 ^ 24\<close>-th part (the rounding
  of the division), the second is exact. A tally of 120 in the 60 s window gives 2.0 and
  120.0.
\<close>

theorem rates_computed:
  assumes "n = pulseCount (handle_edges ts (loop_arm s))"
  shows "take 6 (drop (length (serial s)) (serial (loop log10f ts s))) =
      [Print ''Pulses measured: '', PrintlnUInt n,
       Print ''Pulses per second: '', PrintlnFloat (pulsesPerSecond n) (displayedDecimals log10f),
       Print ''Pulses per minute: '', PrintlnFloat (pulsesPerMinute n) (displayedDecimals log10f)]
    \<and> pulsesPerSecond n =
        f32_div (of_nat (unat n)) (of_nat (unat measurementDelaySeconds))
    \<and> \<bar>pulsesPerSecond n - of_nat (unat n) / of_nat (unat measurementDelaySeconds)\<bar>
        \<le> of_nat (unat n) / of_nat (unat measurementDelaySeconds) / 2 ^ 24
    \<and> pulsesPerMinute n =
        f32_div (f32_mul (of_nat (unat n)) 60) (of_nat (unat measurementDelaySeconds))
    \<and> pulsesPerMinute n = of_nat (unat n) * 60 / of_nat (unat measurementDelaySeconds)
    \<and> pulsesPerSecond 120 = 2 \<and> pulsesPerMinute 120 = 120"
proof -
  have out: "take 6 (drop (length (serial s)) (serial (loop log10f ts s))) =
      [Print ''Pulses measured: '', PrintlnUInt n,
       Print ''Pulses per second: '', PrintlnFloat (pulsesPerSecond n) (displayedDecimals log10f),
       Print ''Pulses per minute: '', PrintlnFloat (pulsesPerMinute n) (displayedDecimals log10f)]"
    by (simp add: loop_serial assms)
  have k: "unat n < 2 ^ 24" "unat n * 60 < 2 ^ 24"
    using tally_bound [of n] by simp_all
  have c60: "f32_of_nat 60 = 60"
    by (simp add: f32_of_nat_exact)
  have pps: "pulsesPerSecond n =
      f32_div (of_nat (unat n)) (of_nat (unat measurementDelaySeconds))"
    unfolding pulsesPerSecond_def window_seconds f32_of_nat_exact [OF k(1)] c60 by simp
  have ppm: "pulsesPerMinute n =
      f32_div (f32_mul (of_nat (unat n)) 60) (of_nat (unat measurementDelaySeconds))"
    unfolding pulsesPerMinute_def window_seconds f32_of_nat_exact [OF k(1)] c60 by simp
  have err: "\<bar>pulsesPerSecond n - of_nat (unat n) / of_nat (unat measurementDelaySeconds)\<bar>
      \<le> of_nat (unat n) / of_nat (unat measurementDelaySeconds) / 2 ^ 24"
    unfolding window_seconds using pulsesPerSecond_error [of n] by simp
  have exact: "pulsesPerMinute n = of_nat (unat n) * 60 / of_nat (unat measurementDelaySeconds)"
    unfolding window_seconds pulsesPerMinute_exact by simp
  have "pulsesPerSecond 120 = f32_of_nat 2"
    by (simp add: pulsesPerSecond_round f32_of_nat_def)
  then have two: "pulsesPerSecond 120 = 2"
    by (simp add: f32_of_nat_exact)
  have "pulsesPerMinute 120 = 120"
    by (simp add: pulsesPerMinute_exact)
  with out pps err ppm exact two show ?thesis
    by (simp only: simp_thms)
qed

theorem rates_computed_witness:
  "pulseCount (handle_edges (map (\<lambda>k. 500 * k) [1..<121]) (loop_arm init)) = 120
   \<and> take 6 (serial (loop (\<lambda>x. - 27 / 16) (map (\<lambda>k. 500 * k) [1..<121]) init)) =
      [Print ''Pulses measured: '', PrintlnUInt 120,
       Print ''Pulses per second: '', PrintlnFloat 2 2,
       Print ''Pulses per minute: '', PrintlnFloat 120 2]"
proof -
  let ?ts = "map (\<lambda>k. 500 * k) [1..<121]"
  have "pulseCount (handle_edges (map (\<lambda>k. 500 * k) [1..<Suc 120]) (loop_arm init)) =
      pulseCount (loop_arm init) + of_nat 120"
    by (rule progression_tally) (simp_all add: loop_arm_fields init_fields)
  then have n: "pulseCount (handle_edges ?ts (loop_arm init)) = 120"
    by (simp add: loop_arm_fields)
  have "\<lceil>27 / 16 :: rat\<rceil> = 2"
    by (rule ceiling_unique) simp_all
  then have d: "displayedDecimals (\<lambda>x. - 27 / 16) = 2"
    by (simp add: displayedDecimals_def numberOfDecimalsNeeded_def)
  from rates_computed [of 120 ?ts init "\<lambda>x. - 27 / 16"] n d show ?thesis
    by (simp add: init_fields)
qed

text \<open>
  C7. Let \<open>n\<close> be the tally at the end of the window. The report of the window contains
  the warning if and only if \<open>pulsesPerSecond n \<ge> maxImpulsesPerSecond\<close>, which is the
  case exactly for tallies of 3000 and more; a tally of 3000 gives exactly the maximum of
  50 and is warned about. With or without the warning, the report ends with the
  separator line and \<open>loop()\<close> returns with the same counters, ready for the next cycle.
\<close>

theorem warning_iff_over_range:
  assumes "n = pulseCount (handle_edges ts (loop_arm s))"
  shows "(warning \<in> set (drop (length (serial s)) (serial (loop log10f ts s))))
        = (maxImpulsesPerSecond \<le> pulsesPerSecond n)
    \<and> (maxImpulsesPerSecond \<le> pulsesPerSecond n) = (3000 \<le> unat n)
    \<and> pulsesPerSecond 3000 = maxImpulsesPerSecond
    \<and> last (serial (loop log10f ts s)) =
        Println ''-----------------------------------------------''
    \<and> pulseCount (loop log10f ts s) = n
    \<and> lastPulse (loop log10f ts s) = lastPulse (handle_edges ts (loop_arm s))
    \<and> ledState (loop log10f ts s) = ledState (handle_edges ts (loop_arm s))
    \<and> ledPin (loop log10f ts s) = ledPin (handle_edges ts (loop_arm s))
    \<and> \<not> interruptsEnabled (loop log10f ts s)"
proof -
  have w: "(warning \<in> set (drop (length (serial s)) (serial (loop log10f ts s))))
      = (maxImpulsesPerSecond \<le> pulsesPerSecond n)"
    by (simp add: loop_serial assms warning_def)
  have iff: "(maxImpulsesPerSecond \<le> pulsesPerSecond n) = (3000 \<le> unat n)"
    by (simp add: maxImpulsesPerSecond_value pulsesPerSecond_over_range)
  have "pulsesPerSecond 3000 = f32_of_nat 50"
    by (simp add: pulsesPerSecond_round f32_of_nat_def)
  then have b: "pulsesPerSecond 3000 = maxImpulsesPerSecond"
    by (simp add: f32_of_nat_exact maxImpulsesPerSecond_value)
  have l: "last (serial (loop log10f ts s)) =
      Println ''-----------------------------------------------''"
    by (simp add: loop_serial)
  have "pulseCount (loop log10f ts s) = n"
    and "lastPulse (loop log10f ts s) = lastPulse (handle_edges ts (loop_arm s))"
    and "ledState (loop log10f ts s) = ledState (handle_edges ts (loop_arm s))"
    and "ledPin (loop log10f ts s) = ledPin (handle_edges ts (loop_arm s))"
    and "\<not> interruptsEnabled (loop log10f ts s)"
    by (simp_all add: loop_def loop_report_fields assms)
  with w iff b l show ?thesis
    by (simp only: simp_thms)
qed

theorem warning_iff_over_range_witness:
  "pulseCount (handle_edges (map (\<lambda>k. 20 * k) [1..<3001]) (loop_arm init)) = 3000
   \<and> warning \<in> set (serial (loop (\<lambda>x. - 27 / 16) (map (\<lambda>k. 20 * k) [1..<3001]) init))
   \<and> warning \<notin> set (serial (loop (\<lambda>x. - 27 / 16) [] init))
   \<and> pulseCount (loop (\<lambda>x. - 27 / 16) (map (\<lambda>k. 20 * k) [1..<3001]) init) = 3000"
proof -
  let ?ts = "map (\<lambda>k. 20 * k) [1..<3001]"
  have "pulseCount (handle_edges (map (\<lambda>k. 20 * k) [1..<Suc 3000]) (loop_arm init)) =
      pulseCount (loop_arm init) + of_nat 3000"
    by (rule progression_tally) (simp_all add: loop_arm_fields init_fields)
  then have n: "pulseCount (handle_edges ?ts (loop_arm init)) = 3000"
    by (simp add: loop_arm_fields)
  have z: "pulseCount (handle_edges [] (loop_arm init)) = 0"
    by (simp add: loop_arm_fields)
  from warning_iff_over_range [of 3000 ?ts init "\<lambda>x. - 27 / 16"]
    warning_iff_over_range [of 0 "[]" init "\<lambda>x. - 27 / 16"] n z
  show ?thesis
    by (simp add: init_fields)
qed

section \<open>The number of decimals\<close>

lemma smallest_number: "f32_div (f32_of_nat 1) maxImpulsesPerSecond = 5368709 / 268435456"
proof -
  have "f32_round (1 / 50) = 5368709 / 268435456"
    by code_simp
  then show ?thesis
    by (simp add: maxImpulsesPerSecond_value f32_div_def f32_of_nat_exact)
qed

lemma smallest_number_real:
  "of_rat (f32_div (f32_of_nat 1) maxImpulsesPerSecond) = (5368709 / 268435456 :: real)"
  unfolding smallest_number by (simp add: of_rat_divide)

lemma log10_power10: "log 10 (1 / 10 ^ k) = - real k"
  by (simp add: log_divide log_nat_power)

lemma log10_smallest_number:
  "- 7 / 4 \<le> log 10 (5368709 / 268435456)" "log 10 (5368709 / 268435456) \<le> - 3 / 2"
proof -
  let ?x = "5368709 / 268435456 :: real"
  have pos: "0 \<le> ?x" by simp
  have "log 10 (1 / 10 ^ 7) \<le> log 10 (?x ^ 4)"
    by (subst log_le_cancel_iff) (simp_all add: power_divide)
  then have "- 7 \<le> 4 * log 10 ?x"
    unfolding log10_power10 log_nat_power [OF pos] by simp
  then show "- 7 / 4 \<le> log 10 ?x" by simp
  have "log 10 (?x ^ 2) \<le> log 10 (1 / 10 ^ 3)"
    by (subst log_le_cancel_iff) (simp_all add: power_divide)
  then have "2 * log 10 ?x \<le> - 3"
    unfolding log10_power10 log_nat_power [OF pos] by simp
  then show "log 10 ?x \<le> - 3 / 2" by simp
qed

lemma log10_fiftieth: "\<lceil>\<bar>log 10 (1 / 50 :: real)\<bar>\<rceil> = 2"
proof -
  have "log 10 (1 / 10 ^ 2) \<le> log 10 (1 / 50 :: real)"
    by (subst log_le_cancel_iff) simp_all
  then have lo: "- 2 \<le> log 10 (1 / 50 :: real)"
    unfolding log10_power10 by simp
  have "log 10 (1 / 50 :: real) < log 10 (1 / 10 ^ 1)"
    by (subst log_less_cancel_iff) simp_all
  then have hi: "log 10 (1 / 50 :: real) < - 1"
    unfolding log10_power10 by simp
  show ?thesis
    using lo hi by (intro ceiling_unique) simp_all
qed

text \<open>
  C6. \<open>maxImpulsesPerSecond\<close> is \<open>(1000 / debounceDelayMillis) * 0.5\<close> without rounding
  error, which is 50 for the debounce interval of 10 ms. The number of decimals is the
  ceiling of the absolute value of \<open>log10\<close> at the float \<open>1 / maxImpulsesPerSecond\<close>.
  For every \<open>log10\<close> of the C library that is within \<open>1 / 4\<close> of the true logarithm at
  that argument this is 2, the value of \<open>ceil(|log10(1 / 50)|)\<close> in exact arithmetic, and
  both rates of every window are printed with 2 decimals.
\<close>

theorem displayed_decimals:
  assumes "\<bar>of_rat (log10f (f32_div (f32_of_nat 1) maxImpulsesPerSecond))
      - log 10 (of_rat (f32_div (f32_of_nat 1) maxImpulsesPerSecond))\<bar> \<le> 1 / 4"
  shows "maxImpulsesPerSecond = 1000 / of_nat (unat debounceDelayMillis) * (1 / 2)
    \<and> maxImpulsesPerSecond = 50
    \<and> displayedDecimals log10f =
        \<lceil>\<bar>log10f (f32_div (f32_of_nat 1) maxImpulsesPerSecond)\<bar>\<rceil>
    \<and> displayedDecimals log10f = \<lceil>\<bar>log 10 (1 / of_rat maxImpulsesPerSecond)\<bar>\<rceil>
    \<and> displayedDecimals log10f = 2
    \<and> PrintlnFloat (pulsesPerSecond (pulseCount (loop log10f ts s))) 2
        \<in> set (serial (loop log10f ts s))
    \<and> PrintlnFloat (pulsesPerMinute (pulseCount (loop log10f ts s))) 2
        \<in> set (serial (loop log10f ts s))"
proof -
  define l where "l = log10f (f32_div (f32_of_nat 1) maxImpulsesPerSecond)"
  have m: "maxImpulsesPerSecond = 1000 / of_nat (unat debounceDelayMillis) * (1 / 2)"
    by (simp add: maxImpulsesPerSecond_value debounceDelayMillis_def)
  have d: "displayedDecimals log10f = \<lceil>\<bar>l\<bar>\<rceil>"
    by (simp add: displayedDecimals_def numberOfDecimalsNeeded_def l_def)
  have "\<bar>of_rat l - log 10 (5368709 / 268435456)\<bar> \<le> 1 / 4"
    using assms unfolding l_def smallest_number_real .
  with log10_smallest_number have "(- 2 :: real) \<le> of_rat l" "of_rat l \<le> (- 5 / 4 :: real)"
    by linarith+
  then have "(of_rat (- 2) :: real) \<le> of_rat l" "(of_rat l :: real) \<le> of_rat (- 5 / 4)"
    by (simp_all add: of_rat_divide of_rat_minus)
  then have "- 2 \<le> l" "l \<le> - 5 / 4"
    by (simp_all only: of_rat_less_eq)
  then have "\<lceil>\<bar>l\<bar>\<rceil> = 2"
    by (intro ceiling_unique) simp_all
  with d have two: "displayedDecimals log10f = 2"
    by simp
  have n: "pulseCount (loop log10f ts s) = pulseCount (handle_edges ts (loop_arm s))"
    by (simp add: loop_def loop_report_fields)
  have "PrintlnFloat (pulsesPerSecond (pulseCount (loop log10f ts s))) 2
      \<in> set (serial (loop log10f ts s))"
    and "PrintlnFloat (pulsesPerMinute (pulseCount (loop log10f ts s))) 2
      \<in> set (serial (loop log10f ts s))"
    unfolding n by (simp_all add: loop_serial two)
  with two d m log10_fiftieth show ?thesis
    by (simp add: maxImpulsesPerSecond_value l_def)
qed

theorem displayed_decimals_witness:
  "\<bar>of_rat (- 27 / 16) - log 10 (of_rat (f32_div (f32_of_nat 1) maxImpulsesPerSecond))\<bar>
     \<le> 1 / 4
   \<and> displayedDecimals (\<lambda>x. - 27 / 16) = 2
   \<and> PrintlnFloat 0 2 \<in> set (serial (loop (\<lambda>x. - 27 / 16) [] init))"
proof -
  have near: "\<bar>- 27 / 16 - y\<bar> \<le> 1 / 4" if "- 7 / 4 \<le> y" "y \<le> - 3 / 2" for y :: real
    using that by linarith
  have r: "(of_rat (- 27 / 16) :: real) = - 27 / 16"
    by (simp add: of_rat_divide of_rat_minus)
  have h: "\<bar>of_rat ((\<lambda>x. - 27 / 16) (f32_div (f32_of_nat 1) maxImpulsesPerSecond))
      - log 10 (of_rat (f32_div (f32_of_nat 1) maxImpulsesPerSecond))\<bar> \<le> 1 / 4"
    unfolding smallest_number_real r by (rule near) (rule log10_smallest_number)+
  have z: "pulseCount (loop (\<lambda>x. - 27 / 16) [] init) = 0"
    by (simp add: loop_def loop_report_fields loop_arm_fields)
  have "pulsesPerMinute 0 = 0"
    by (simp add: pulsesPerMinute_exact)
  with displayed_decimals [of "\<lambda>x. - 27 / 16" "[]" init, OF h] h z show ?thesis
    by simp
qed

end
